theory Spec2Isabelle
  imports Main "HOL-Library.Word" "HOL-Library.Monad_Syntax"
begin

unbundle bit_operations_syntax

section \<open>Bytes, byte order and bounded memory\<close>

type_synonym byte = "8 word"

text \<open>
  The byte order of the host is not fixed by \<^verbatim>\<open>ipv4.c\<close>; every definition that
  depends on it takes it as a parameter.
\<close>

datatype endian = LittleEndian | BigEndian

text \<open>A 16-bit load \<^verbatim>\<open>*(uint16_t *)p\<close> of the two bytes stored at \<^verbatim>\<open>p\<close>, \<^verbatim>\<open>p + 1\<close>.\<close>

fun load16 :: "endian \<Rightarrow> byte \<Rightarrow> byte \<Rightarrow> 16 word" where
  "load16 LittleEndian b0 b1 = word_cat b1 b0"
| "load16 BigEndian b0 b1 = word_cat b0 b1"

text \<open>The two bytes a 16-bit store leaves in memory, lowest address first.\<close>

fun store16 :: "endian \<Rightarrow> 16 word \<Rightarrow> byte list" where
  "store16 LittleEndian v = [ucast v, ucast (drop_bit 8 v)]"
| "store16 BigEndian v = [ucast (drop_bit 8 v), ucast v]"

fun load32 :: "endian \<Rightarrow> byte \<Rightarrow> byte \<Rightarrow> byte \<Rightarrow> byte \<Rightarrow> 32 word" where
  "load32 LittleEndian b0 b1 b2 b3 = word_cat (load16 LittleEndian b2 b3) (load16 LittleEndian b0 b1)"
| "load32 BigEndian b0 b1 b2 b3 = word_cat (load16 BigEndian b0 b1) (load16 BigEndian b2 b3)"

fun store32 :: "endian \<Rightarrow> 32 word \<Rightarrow> byte list" where
  "store32 LittleEndian v = store16 LittleEndian (ucast v) @ store16 LittleEndian (ucast (drop_bit 16 v))"
| "store32 BigEndian v = store16 BigEndian (ucast (drop_bit 16 v)) @ store16 BigEndian (ucast v)"

text \<open>\<^verbatim>\<open>htons\<close> and \<^verbatim>\<open>ntohs\<close>: a byte swap on a little-endian host, the identity otherwise.\<close>

fun htons :: "endian \<Rightarrow> 16 word \<Rightarrow> 16 word" where
  "htons LittleEndian v = push_bit 8 v OR drop_bit 8 v"
| "htons BigEndian v = v"

definition ntohs :: "endian \<Rightarrow> 16 word \<Rightarrow> 16 word" where
  "ntohs e v = htons e v"

text \<open>
  A buffer is the list of its bytes; its length is its extent. An access outside the
  extent is undefined behaviour in C and \<open>None\<close> here.
\<close>

definition read_bytes :: "byte list \<Rightarrow> nat \<Rightarrow> nat \<Rightarrow> byte list option" where
  "read_bytes mem off n = (if off + n \<le> length mem then Some (take n (drop off mem)) else None)"

definition write_bytes :: "byte list \<Rightarrow> nat \<Rightarrow> byte list \<Rightarrow> byte list option" where
  "write_bytes mem off bs =
     (if off + length bs \<le> length mem
      then Some (take off mem @ bs @ drop (off + length bs) mem) else None)"

text \<open>\<^verbatim>\<open>memcpy(dst + doff, src + soff, n)\<close>.\<close>

definition memcpy :: "byte list \<Rightarrow> nat \<Rightarrow> byte list \<Rightarrow> nat \<Rightarrow> nat \<Rightarrow> byte list option" where
  "memcpy dst doff src soff n = do { bs \<leftarrow> read_bytes src soff n; write_bytes dst doff bs }"

definition read8 :: "byte list \<Rightarrow> nat \<Rightarrow> byte option" where
  "read8 mem off = (if off < length mem then Some (mem ! off) else None)"

definition read16 :: "endian \<Rightarrow> byte list \<Rightarrow> nat \<Rightarrow> 16 word option" where
  "read16 e mem off =
     (if off + 2 \<le> length mem then Some (load16 e (mem ! off) (mem ! (off + 1))) else None)"

definition read32 :: "endian \<Rightarrow> byte list \<Rightarrow> nat \<Rightarrow> 32 word option" where
  "read32 e mem off =
     (if off + 4 \<le> length mem
      then Some (load32 e (mem ! off) (mem ! (off + 1)) (mem ! (off + 2)) (mem ! (off + 3)))
      else None)"

section \<open>The Internet checksum\<close>

text \<open>
  \<^verbatim>\<open>ipv4_checksum\<close>, first loop and the odd trailing byte: \<open>mem\<close> is the memory from
  \<^verbatim>\<open>data\<close> on, \<open>len\<close> the remaining \<^verbatim>\<open>length\<close>, \<open>acc\<close> the 32-bit accumulator \<^verbatim>\<open>sum\<close>.
\<close>

fun sum_words :: "endian \<Rightarrow> byte list \<Rightarrow> nat \<Rightarrow> 32 word \<Rightarrow> 32 word option" where
  "sum_words e mem len acc =
     (if 1 < len then
        (case mem of
           b0 # b1 # rest \<Rightarrow> sum_words e rest (len - 2) (acc + ucast (load16 e b0 b1))
         | _ \<Rightarrow> None)
      else if 0 < len then
        (case mem of b0 # rest \<Rightarrow> Some (acc + ucast b0) | [] \<Rightarrow> None)
      else Some acc)"

declare sum_words.simps [simp del]

text \<open>The second loop: \<^verbatim>\<open>while (sum >> 16) sum = (sum & 0xFFFF) + (sum >> 16);\<close>\<close>

function fold_carry :: "32 word \<Rightarrow> 32 word" where
  "fold_carry acc =
     (if drop_bit 16 acc \<noteq> 0 then fold_carry ((acc AND 0xFFFF) + drop_bit 16 acc) else acc)"
  by pat_completeness auto

termination
proof (relation "measure unat")
  show "wf (measure unat)" by simp
next
  fix acc :: "32 word"
  assume nz: "drop_bit 16 acc \<noteq> 0"
  define q r where "q = unat acc div 65536" and "r = unat acc mod 65536"
  have "acc AND 0xFFFF = take_bit 16 acc"
    by (simp only: take_bit_eq_mask) (simp add: mask_eq_exp_minus_1)
  then have "unat (acc AND 0xFFFF) = take_bit 16 (unat acc)"
    by (simp only: unsigned_take_bit_eq)
  then have lo: "unat (acc AND 0xFFFF) = r"
    by (simp add: take_bit_eq_mod r_def)
  have "unat (drop_bit 16 acc) = drop_bit 16 (unat acc)"
    by (simp only: unat_drop_bit_eq)
  then have hi: "unat (drop_bit 16 acc) = q"
    by (simp add: drop_bit_eq_div q_def)
  have "unat acc < 2 ^ 32" using unsigned_less [of acc] by simp
  then have "q < 65536" by (simp add: q_def)
  moreover have "r < 65536" by (simp add: r_def)
  ultimately have "unat (acc AND 0xFFFF) + unat (drop_bit 16 acc) < 2 ^ LENGTH(32)"
    unfolding lo hi by simp
  then have sum: "unat ((acc AND 0xFFFF) + drop_bit 16 acc) = r + q"
    by (simp only: unat_add_lem [THEN iffD1] lo hi)
  have eq: "unat acc = 65536 * q + r" by (simp add: q_def r_def)
  have "unat (drop_bit 16 acc) \<noteq> 0" using nz by (simp only: unat_eq_0 not_False_eq_True)
  then have "q \<noteq> 0" by (simp only: hi not_False_eq_True)
  then have "r + q < unat acc" unfolding eq by linarith
  then show "((acc AND 0xFFFF) + drop_bit 16 acc, acc) \<in> measure unat"
    by (simp add: sum)
qed

declare fold_carry.simps [simp del]

text \<open>
  \<^verbatim>\<open>ipv4_checksum(vdata, length)\<close>: \<open>mem\<close> is the memory \<^verbatim>\<open>vdata\<close> points to. The
  result is \<open>None\<close> when the loops read past the end of \<open>mem\<close>; \<^verbatim>\<open>return ~sum\<close>
  truncates the complemented accumulator to 16 bits.
\<close>

definition ipv4_checksum :: "endian \<Rightarrow> byte list \<Rightarrow> nat \<Rightarrow> 16 word option" where
  "ipv4_checksum e mem len =
     do { acc \<leftarrow> sum_words e mem len 0; Some (ucast (NOT (fold_carry acc))) }"

section \<open>The device record and the header layout\<close>

text \<open>
  Modelled from the spec: \<^verbatim>\<open>nic_device_t\<close> is declared in \<^verbatim>\<open>interface.h\<close>, which is
  not part of the sources. The spec gives the two fields \<^verbatim>\<open>ipv4.c\<close> reads: the
  device's own network address (a 32-bit value whose bytes in memory are in network
  order) and its link address (6 bytes).
\<close>

record nic_device =
  ip_address :: "32 word"
  mac_address :: "byte list"

text \<open>
  Modelled from the spec: \<^verbatim>\<open>struct ipv4_header\<close> is declared in \<^verbatim>\<open>ipv4.h\<close>, which is
  not part of the sources. The spec gives the layout: version/IHL byte at offset 0,
  type of service at 1, total length at 2, identification at 4, flags and fragment
  offset at 6, time to live at 8, protocol at 9, header checksum at 10, source
  address at 12, destination address at 16; \<^verbatim>\<open>sizeof(struct ipv4_header)\<close> is 20.
\<close>

text \<open>
  \<^verbatim>\<open>sizeof(struct ipv4_header) + payload_len\<close> converted to \<^verbatim>\<open>uint16_t\<close>: the argument
  of \<^verbatim>\<open>htons\<close> in line 39 and the variable \<^verbatim>\<open>ip_packet_len\<close> of line 68. The sum is
  computed in \<^verbatim>\<open>size_t\<close>, where it cannot overflow, and then truncated.
\<close>

definition ip_packet_len :: "16 word \<Rightarrow> 16 word" where
  "ip_packet_len payload_len = word_of_nat (20 + unat payload_len)"

section \<open>The send path\<close>

text \<open>
  Lines 37 to 51 of \<^verbatim>\<open>ipv4_send\<close>: the stores through \<^verbatim>\<open>ip_hdr\<close>, which points to the
  start of \<open>buffer\<close>, in the order of the source.
\<close>

definition ipv4_write_header ::
  "endian \<Rightarrow> nic_device \<Rightarrow> 32 word \<Rightarrow> byte \<Rightarrow> 16 word \<Rightarrow> byte list \<Rightarrow> byte list option" where
  "ipv4_write_header e nic dst_ip protocol payload_len buffer =
     do {
       b \<leftarrow> write_bytes buffer 0 [push_bit 4 4 OR 5];
       b \<leftarrow> write_bytes b 1 [0];
       b \<leftarrow> write_bytes b 2 (store16 e (htons e (ip_packet_len payload_len)));
       b \<leftarrow> write_bytes b 4 (store16 e (htons e 0));
       b \<leftarrow> write_bytes b 6 (store16 e 0);
       b \<leftarrow> write_bytes b 8 [64];
       b \<leftarrow> write_bytes b 9 [protocol];
       b \<leftarrow> write_bytes b 12 (store32 e (ip_address nic));
       b \<leftarrow> write_bytes b 16 (store32 e dst_ip);
       b \<leftarrow> write_bytes b 10 (store16 e 0);
       c \<leftarrow> ipv4_checksum e b 20;
       write_bytes b 10 (store16 e c)
     }"

text \<open>
  For stating results: the 20 bytes lines 37 to 51 leave at the start of \<open>buffer\<close>
  when the checksum field holds \<open>c\<close>. The total length is in network byte order.
\<close>

definition header_image ::
  "endian \<Rightarrow> nic_device \<Rightarrow> 32 word \<Rightarrow> byte \<Rightarrow> 16 word \<Rightarrow> 16 word \<Rightarrow> byte list" where
  "header_image e nic dst_ip protocol payload_len c =
     [0x45, 0, ucast (drop_bit 8 (ip_packet_len payload_len)), ucast (ip_packet_len payload_len),
      0, 0, 0, 0, 64, protocol]
     @ store16 e c @ store32 e (ip_address nic) @ store32 e dst_ip"

text \<open>
  The outcome of \<^verbatim>\<open>ipv4_send\<close>: either \<^verbatim>\<open>drv->send_packet\<close> is called with the device
  and a frame (the first \<^verbatim>\<open>ip_packet_len + 14\<close> bytes of \<^verbatim>\<open>ethernet_buffer\<close>), or some
  access left the bounds of a buffer before that.
\<close>

datatype tx_result = TxOutOfBounds | SendPacket nic_device "byte list"

text \<open>
  \<^verbatim>\<open>ipv4_send\<close>. \<open>payload\<close> is the memory the pointer of that name refers to. The two
  arrays of 2048 bytes start out zeroed here; C leaves them indeterminate, and every
  byte the function reads from them has been written by it before. The driver
  (\<^verbatim>\<open>nic_get_driver\<close>, \<^verbatim>\<open>send_packet\<close>) is external: the model records the call and the
  bytes of the frame it is given.
\<close>

definition ipv4_send ::
  "endian \<Rightarrow> nic_device \<Rightarrow> 32 word \<Rightarrow> byte \<Rightarrow> byte list \<Rightarrow> 16 word \<Rightarrow> tx_result" where
  "ipv4_send e nic dst_ip protocol payload payload_len =
     (case do {
        buffer \<leftarrow> ipv4_write_header e nic dst_ip protocol payload_len (replicate 2048 0);
        buffer \<leftarrow> memcpy buffer 20 payload 0 (unat payload_len);
        ethernet_buffer \<leftarrow> memcpy (replicate 2048 0) 0 (replicate 6 0xFF) 0 6;
        ethernet_buffer \<leftarrow> memcpy ethernet_buffer 6 (mac_address nic) 0 6;
        ethernet_buffer \<leftarrow> memcpy ethernet_buffer 12 (store16 e (htons e 0x0800)) 0 2;
        ethernet_buffer \<leftarrow>
          memcpy ethernet_buffer 14 buffer 0 (unat (ip_packet_len payload_len));
        read_bytes ethernet_buffer 0 (unat (ip_packet_len payload_len) + 14)
      } of
        None \<Rightarrow> TxOutOfBounds
      | Some frame \<Rightarrow> SendPacket nic frame)"

section \<open>The receive path\<close>

text \<open>
  The outcome of \<^verbatim>\<open>ipv4_receive\<close>:
  \<^item> \<open>RxOutOfBounds\<close>: a header read left the bounds of the packet buffer;
  \<^item> \<open>Dropped\<close>: one of the two early returns;
  \<^item> \<open>IcmpReceive nic src off n\<close>: the call
    \<^verbatim>\<open>icmp_receive(nic, hdr->source_address, payload, payload_len)\<close>, where \<open>off\<close> is the
    offset of \<^verbatim>\<open>payload\<close> in the packet buffer and \<open>n\<close> is \<^verbatim>\<open>payload_len\<close>;
  \<^item> \<open>Logged src proto n shown\<close>: the fallback branch printed the source address, the
    protocol, \<^verbatim>\<open>payload_len\<close> and the bytes \<open>shown\<close>;
  \<^item> \<open>DumpOutOfBounds\<close>: the fallback branch read past the end of the packet buffer
    in its hexadecimal dump.
\<close>

datatype rx_result =
    RxOutOfBounds
  | Dropped
  | IcmpReceive nic_device "32 word" nat "16 word"
  | Logged "32 word" byte "16 word" "byte list"
  | DumpOutOfBounds

text \<open>
  Lines 91 to 115: payload location and size, then the branch on the protocol. Only
  accesses are checked against the extent of the packet buffer; forming the pointer
  \<^verbatim>\<open>packet + ip_hdr_len\<close> is not. The handler \<^verbatim>\<open>icmp_receive\<close> is external, printing is
  recorded as the values printed.
\<close>

definition ipv4_demux :: "endian \<Rightarrow> nic_device \<Rightarrow> byte list \<Rightarrow> rx_result" where
  "ipv4_demux e nic packet =
     (case do {
        version_ihl \<leftarrow> read8 packet 0;
        total_length \<leftarrow> read16 e packet 2;
        protocol \<leftarrow> read8 packet 9;
        source_address \<leftarrow> read32 e packet 12;
        Some (version_ihl, total_length, protocol, source_address)
      } of
        None \<Rightarrow> RxOutOfBounds
      | Some (version_ihl, total_length, protocol, source_address) \<Rightarrow>
          (let ip_hdr_len = (ucast (version_ihl AND 0x0F) * 4 :: 16 word);
               payload = unat ip_hdr_len;
               payload_len = ntohs e total_length - ip_hdr_len
           in if protocol = 1 then IcmpReceive nic source_address payload payload_len
              else if 0 < payload_len then
                (case read_bytes packet payload
                        (if 16 < unat payload_len then 16 else unat payload_len) of
                   None \<Rightarrow> DumpOutOfBounds
                 | Some shown \<Rightarrow> Logged source_address protocol payload_len shown)
              else Logged source_address protocol payload_len []))"

text \<open>
  \<^verbatim>\<open>ipv4_receive\<close>. \<open>packet\<close> is the buffer the pointer refers to, \<open>len\<close> the third
  argument, which the function never uses.
\<close>

definition ipv4_receive :: "endian \<Rightarrow> nic_device \<Rightarrow> byte list \<Rightarrow> 32 word \<Rightarrow> rx_result" where
  "ipv4_receive e nic packet len =
     (case ipv4_checksum e packet 20 of
        None \<Rightarrow> RxOutOfBounds
      | Some c \<Rightarrow>
          if c \<noteq> 0 then Dropped
          else (case read32 e packet 16 of
                  None \<Rightarrow> RxOutOfBounds
                | Some destination_address \<Rightarrow>
                    if destination_address \<noteq> ip_address nic \<and> destination_address \<noteq> 0xFFFFFFFF
                    then Dropped
                    else ipv4_demux e nic packet))"

text \<open>Whether an outcome lies behind the two early returns, in the protocol branch.\<close>

fun dispatched :: "rx_result \<Rightarrow> bool" where
  "dispatched (IcmpReceive nic src off n) = True"
| "dispatched (Logged src proto n shown) = True"
| "dispatched DumpOutOfBounds = True"
| "dispatched Dropped = False"
| "dispatched RxOutOfBounds = False"

section \<open>The checksum as the specification words it\<close>

text \<open>
  The region read as consecutive 16-bit words as stored; an odd trailing byte is the
  low byte of a last word whose high byte is zero.
\<close>

fun rfc1071_words :: "endian \<Rightarrow> byte list \<Rightarrow> nat list" where
  "rfc1071_words e (b0 # b1 # rest) = unat (load16 e b0 b1) # rfc1071_words e rest"
| "rfc1071_words e [b0] = [unat b0]"
| "rfc1071_words e [] = []"

text \<open>Every carry out of bit 16 is folded back into the low 16 bits until none remains.\<close>

function rfc1071_fold :: "nat \<Rightarrow> nat" where
  "rfc1071_fold s =
     (if s div 65536 \<noteq> 0 then rfc1071_fold (s mod 65536 + s div 65536) else s)"
  by pat_completeness auto
termination
proof (relation "measure id")
  show "wf (measure id)" by simp
next
  fix s :: nat
  assume nz: "s div 65536 \<noteq> 0"
  define q r where "q = s div 65536" and "r = s mod 65536"
  have eq: "s = 65536 * q + r" by (simp add: q_def r_def)
  have "q \<noteq> 0" using nz by (simp add: q_def)
  then have "r + q < s" unfolding eq by linarith
  then show "(s mod 65536 + s div 65536, s) \<in> measure id"
    by (simp add: q_def r_def)
qed

declare rfc1071_fold.simps [simp del]

text \<open>The one's complement of the folded sum, in 16 bits.\<close>

definition rfc1071_checksum :: "endian \<Rightarrow> byte list \<Rightarrow> 16 word" where
  "rfc1071_checksum e bytes =
     NOT (word_of_nat (rfc1071_fold (sum_list (rfc1071_words e bytes))))"

section \<open>Facts about the folding loop\<close>

lemma unat_lo16: "unat ((acc :: 32 word) AND 0xFFFF) = unat acc mod 65536"
proof -
  have "acc AND 0xFFFF = take_bit 16 acc"
    by (simp only: take_bit_eq_mask) (simp add: mask_eq_exp_minus_1)
  then have "unat (acc AND 0xFFFF) = take_bit 16 (unat acc)"
    by (simp only: unsigned_take_bit_eq)
  then show ?thesis by (simp add: take_bit_eq_mod)
qed

lemma unat_hi16: "unat (drop_bit 16 (acc :: 32 word)) = unat acc div 65536"
proof -
  have "unat (drop_bit 16 acc) = drop_bit 16 (unat acc)"
    by (simp only: unat_drop_bit_eq)
  then show ?thesis by (simp add: drop_bit_eq_div)
qed

lemma unat_fold_step:
  "unat (((acc :: 32 word) AND 0xFFFF) + drop_bit 16 acc) = unat acc mod 65536 + unat acc div 65536"
proof -
  have "unat acc < 2 ^ 32" using unsigned_less [of acc] by simp
  then have "unat acc div 65536 < 65536" by simp
  moreover have "unat acc mod 65536 < 65536" by simp
  ultimately have "unat (acc AND 0xFFFF) + unat (drop_bit 16 acc) < 2 ^ LENGTH(32)"
    unfolding unat_lo16 unat_hi16 by simp
  then show ?thesis
    by (simp only: unat_add_lem [THEN iffD1] unat_lo16 unat_hi16)
qed

lemma hi16_zero_iff: "drop_bit 16 (acc :: 32 word) = 0 \<longleftrightarrow> unat acc div 65536 = 0"
proof -
  have "drop_bit 16 acc = 0 \<longleftrightarrow> unat (drop_bit 16 acc) = 0" by (simp only: unat_eq_0)
  then show ?thesis by (simp only: unat_hi16)
qed

lemma unat_fold_carry: "unat (fold_carry acc) = rfc1071_fold (unat acc)"
proof (induction acc rule: fold_carry.induct)
  case (1 acc)
  show ?case
  proof (cases "drop_bit 16 acc = 0")
    case True
    then have "unat acc div 65536 = 0" by (simp only: hi16_zero_iff)
    then have "rfc1071_fold (unat acc) = unat acc"
      by (subst rfc1071_fold.simps) simp
    moreover have "fold_carry acc = acc" using True by (subst fold_carry.simps) simp
    ultimately show ?thesis by simp
  next
    case False
    then have nz: "unat acc div 65536 \<noteq> 0" by (simp only: hi16_zero_iff not_False_eq_True)
    have "unat (fold_carry acc) = unat (fold_carry ((acc AND 0xFFFF) + drop_bit 16 acc))"
      using False by (subst fold_carry.simps) simp
    also have "\<dots> = rfc1071_fold (unat acc mod 65536 + unat acc div 65536)"
      using "1.IH" [OF False] by (simp only: unat_fold_step)
    also have "\<dots> = rfc1071_fold (unat acc)"
      using nz by (subst (2) rfc1071_fold.simps) simp
    finally show ?thesis .
  qed
qed

lemma rfc1071_fold_closed: "rfc1071_fold s = (if s = 0 then 0 else (s - 1) mod 65535 + 1)"
proof (induction s rule: rfc1071_fold.induct)
  case (1 s)
  show ?case
  proof (cases "s div 65536 = 0")
    case True
    then have lt: "s < 65536" by (simp add: div_eq_0_iff)
    have "rfc1071_fold s = s" using True by (subst rfc1071_fold.simps) simp
    moreover have "s \<noteq> 0 \<Longrightarrow> (s - 1) mod 65535 = s - 1" using lt by simp
    ultimately show ?thesis by simp
  next
    case False
    define q r where "q = s div 65536" and "r = s mod 65536"
    have eq: "s = 65536 * q + r" by (simp add: q_def r_def)
    have q: "q \<noteq> 0" using False by (simp add: q_def)
    have "rfc1071_fold s = rfc1071_fold (r + q)"
      using False unfolding q_def r_def by (subst rfc1071_fold.simps) simp
    also have "\<dots> = (r + q - 1) mod 65535 + 1"
      using "1.IH" [OF False] q unfolding q_def r_def by simp
    also have "(r + q - 1) mod 65535 = (s - 1) mod 65535"
    proof -
      have "s - 1 = (r + q - 1) + q * 65535" using q unfolding eq by simp
      then show ?thesis by (simp only: mod_mult_self1)
    qed
    finally show ?thesis using q eq by simp
  qed
qed

lemma ucast_not_32_16: "(ucast (NOT (x :: 32 word)) :: 16 word) = NOT (ucast x)"
  by (rule bit_word_eqI) (auto simp: bit_simps)

lemma ucast_32_16_of_nat: "(ucast (x :: 32 word) :: 16 word) = word_of_nat (unat x)"
  by simp

section \<open>The checksum of the code and the checksum of the specification\<close>

lemma sum_words_eq:
  "sum_words e mem len acc =
     (if len \<le> length mem
      then Some (acc + word_of_nat (sum_list (rfc1071_words e (take len mem)))) else None)"
proof (induction e mem len acc rule: sum_words.induct)
  case (1 e mem len acc)
  show ?case
  proof (cases "1 < len")
    case True
    show ?thesis
    proof (cases mem)
      case Nil
      with True show ?thesis by (subst sum_words.simps) simp
    next
      case (Cons b0 tl)
      show ?thesis
      proof (cases tl)
        case Nil
        with True Cons show ?thesis by (subst sum_words.simps) simp
      next
        case (Cons b1 rest)
        note mem = \<open>mem = b0 # tl\<close> Cons
        have tk: "take len (b0 # b1 # rest) = b0 # b1 # take (len - 2) rest"
          using True by (cases len; simp) (cases "len - 1"; simp)
        have le: "len \<le> Suc (Suc (length rest)) \<longleftrightarrow> len - 2 \<le> length rest"
          using True by arith
        show ?thesis
          using True "1.IH" [OF True \<open>mem = b0 # tl\<close> Cons]
          by (subst sum_words.simps) (simp add: mem tk le add.assoc)
      qed
    qed
  next
    case False
    then consider "len = 0" | "len = 1" by arith
    then show ?thesis
    proof cases
      case 1
      then show ?thesis by (subst sum_words.simps) simp
    next
      case 2
      then show ?thesis by (subst sum_words.simps) (cases mem; simp)
    qed
  qed
qed

lemma ipv4_checksum_eq:
  "ipv4_checksum e mem len =
     (if len \<le> length mem
      then Some (ucast (NOT (fold_carry (word_of_nat (sum_list (rfc1071_words e (take len mem)))))))
      else None)"
  by (simp add: ipv4_checksum_def sum_words_eq)

lemma fold_carry_of_nat:
  assumes "t < 2 ^ 32"
  shows "(ucast (NOT (fold_carry (word_of_nat t))) :: 16 word) = NOT (word_of_nat (rfc1071_fold t))"
proof -
  have "unat (word_of_nat t :: 32 word) = t"
    using assms by (simp add: unat_of_nat)
  then have "unat (fold_carry (word_of_nat t)) = rfc1071_fold t"
    by (simp only: unat_fold_carry)
  then have "(ucast (fold_carry (word_of_nat t)) :: 16 word) = word_of_nat (rfc1071_fold t)"
    by (simp only: ucast_32_16_of_nat)
  then show ?thesis by (simp only: ucast_not_32_16)
qed

lemma rfc1071_words_bound:
  "sum_list (rfc1071_words e bytes) \<le> 65535 * (length bytes div 2) + 255 * (length bytes mod 2)"
proof (induction e bytes rule: rfc1071_words.induct)
  case (1 e b0 b1 rest)
  have "unat (load16 e b0 b1) < 2 ^ 16" using unsigned_less [of "load16 e b0 b1"] by simp
  then have "unat (load16 e b0 b1) \<le> 65535" by simp
  with 1 show ?case by simp
next
  case (2 e b0)
  have "unat b0 < 2 ^ 8" using unsigned_less [of b0] by simp
  then show ?case by simp
next
  case (3 e)
  show ?case by simp
qed

lemma rfc1071_words_small:
  assumes "length bytes \<le> 131074"
  shows "sum_list (rfc1071_words e bytes) < 2 ^ 32"
proof -
  define d m where "d = length bytes div 2" and "m = length bytes mod 2"
  have len: "length bytes = 2 * d + m" by (simp add: d_def m_def)
  have m: "m \<le> 1" by (simp add: m_def)
  have "65535 * d + 255 * m \<le> 4294967295"
  proof (cases "d \<le> 65536")
    case True
    with m show ?thesis by linarith
  next
    case False
    with assms len have "d = 65537" and "m = 0" by linarith+
    then show ?thesis by simp
  qed
  moreover have "sum_list (rfc1071_words e bytes) \<le> 65535 * d + 255 * m"
    unfolding d_def m_def by (rule rfc1071_words_bound)
  ultimately show ?thesis by simp
qed

lemma ipv4_checksum_rfc1071:
  assumes "len \<le> length mem" and "len \<le> 131074"
  shows "ipv4_checksum e mem len = Some (rfc1071_checksum e (take len mem))"
proof -
  have "length (take len mem) \<le> 131074" using assms by simp
  then have "sum_list (rfc1071_words e (take len mem)) < 2 ^ 32"
    by (rule rfc1071_words_small)
  then show ?thesis
    using assms(1) by (simp add: ipv4_checksum_eq rfc1071_checksum_def fold_carry_of_nat)
qed

section \<open>Byte order\<close>

lemma length_store16 [simp]: "length (store16 e v) = 2"
  by (cases e) simp_all

lemma length_store32 [simp]: "length (store32 e v) = 4"
  by (cases e) simp_all

lemma word_cat_bytes: "word_cat (ucast (drop_bit 8 v) :: byte) (ucast v :: byte) = (v :: 16 word)"
  by (rule bit_word_eqI) (auto simp: bit_simps)

lemma word_cat_halves:
  "word_cat (ucast (drop_bit 16 v) :: 16 word) (ucast v :: 16 word) = (v :: 32 word)"
  by (rule bit_word_eqI) (auto simp: bit_simps)

lemma load16_store16: "store16 e v = [a, b] \<Longrightarrow> load16 e a b = v"
  by (cases e) (auto simp: word_cat_bytes)

lemma load32_store32: "store32 e v = [a, b, c, d] \<Longrightarrow> load32 e a b c d = v"
  by (cases e) (auto simp: word_cat_bytes word_cat_halves)

lemma store16_htons: "store16 e (htons e v) = [ucast (drop_bit 8 v), ucast v]"
proof (cases e)
  case LittleEndian
  have "(ucast (push_bit 8 v OR drop_bit 8 v) :: byte) = ucast (drop_bit 8 v)"
    by (rule bit_word_eqI) (auto simp: bit_simps)
  moreover have "(ucast (drop_bit 8 (push_bit 8 v OR drop_bit 8 v)) :: byte) = ucast v"
    by (rule bit_word_eqI) (auto simp: bit_simps)
  ultimately show ?thesis using LittleEndian by simp
next
  case BigEndian
  then show ?thesis by simp
qed

lemma ntohs_load16: "ntohs e (load16 e a b) = word_cat a b"
proof (cases e)
  case LittleEndian
  have "push_bit 8 (word_cat b a :: 16 word) OR drop_bit 8 (word_cat b a) = word_cat a b"
    by (rule bit_word_eqI) (auto simp: bit_simps)
  then show ?thesis using LittleEndian by (simp add: ntohs_def)
next
  case BigEndian
  then show ?thesis by (simp add: ntohs_def)
qed

lemma store16_cases: obtains a b where "store16 e v = [a, b]"
  by (cases e) simp_all

lemma store32_cases: obtains a b c d where "store32 e v = [a, b, c, d]"
  by (cases e) simp_all

lemma rfc1071_words_store16:
  "rfc1071_words e (store16 e v @ rest) = unat v # rfc1071_words e rest"
proof -
  obtain a b where ab: "store16 e v = [a, b]" by (rule store16_cases)
  then show ?thesis by (simp add: load16_store16)
qed

lemma rfc1071_words_append:
  "even (length xs) \<Longrightarrow> rfc1071_words e (xs @ ys) = rfc1071_words e xs @ rfc1071_words e ys"
  by (induction e xs rule: rfc1071_words.induct) simp_all

section \<open>Facts about the send path\<close>

lemma length_header_image [simp]: "length (header_image e nic D T n c) = 20"
  by (simp add: header_image_def)

lemma store16_zero: "store16 e 0 = [0, 0]"
  by (cases e) simp_all

lemma htons_zero: "htons e 0 = 0"
  by (cases e) simp_all

lemma write_header_cons:
  "ipv4_write_header e nic D T n
     (a0 # a1 # a2 # a3 # a4 # a5 # a6 # a7 # a8 # a9 # a10 # a11 # a12 # a13 # a14 # a15
        # a16 # a17 # a18 # a19 # rest)
   = Some (header_image e nic D T n (rfc1071_checksum e (header_image e nic D T n 0)) @ rest)"
proof -
  obtain s0 s1 s2 s3 where src: "store32 e (ip_address nic) = [s0, s1, s2, s3]"
    by (rule store32_cases)
  obtain d0 d1 d2 d3 where dst: "store32 e D = [d0, d1, d2, d3]"
    by (rule store32_cases)
  obtain c0 c1 where
    c: "store16 e (rfc1071_checksum e (header_image e nic D T n 0)) = [c0, c1]"
    by (rule store16_cases)
  let ?hi = "ucast (drop_bit 8 (ip_packet_len n)) :: byte"
  let ?lo = "ucast (ip_packet_len n) :: byte"
  let ?b = "[0x45, 0, ?hi, ?lo, 0, 0, 0, 0, 64, T, 0, 0, s0, s1, s2, s3, d0, d1, d2, d3] @ rest"
  have img0: "header_image e nic D T n 0 = [0x45, 0, ?hi, ?lo, 0, 0, 0, 0, 64, T, 0, 0, s0, s1, s2, s3, d0, d1, d2, d3]"
    by (simp add: header_image_def store16_zero src dst)
  have ck: "ipv4_checksum e ?b 20 = Some (rfc1071_checksum e (header_image e nic D T n 0))"
    by (subst ipv4_checksum_rfc1071) (simp_all add: img0)
  show ?thesis
    apply (simp add: ipv4_write_header_def write_bytes_def store16_htons store16_zero htons_zero
        src dst)
    apply (simp add: ck[simplified] c header_image_def src dst write_bytes_def)
    done
qed

lemma write_bytes_append:
  "length pre = off \<Longrightarrow> length bs \<le> length post \<Longrightarrow>
     write_bytes (pre @ post) off bs = Some (pre @ bs @ drop (length bs) post)"
  by (simp add: write_bytes_def)

lemma read_bytes_prefix: "length pre = n \<Longrightarrow> read_bytes (pre @ post) 0 n = Some pre"
  by (simp add: read_bytes_def)

lemma read_bytes_take: "n \<le> length src \<Longrightarrow> read_bytes src 0 n = Some (take n src)"
  by (simp add: read_bytes_def)

lemma memcpy_append:
  assumes "n \<le> length src" and "length pre = off" and "n \<le> length post"
  shows "memcpy (pre @ post) off src 0 n = Some (pre @ take n src @ drop n post)"
  using assms by (simp add: memcpy_def read_bytes_take write_bytes_append)

lemma zeros_2048:
  "replicate 2048 (0 :: byte) =
     0 # 0 # 0 # 0 # 0 # 0 # 0 # 0 # 0 # 0 # 0 # 0 # 0 # 0 # 0 # 0 # 0 # 0 # 0 # 0
       # replicate 2028 0"
proof -
  have "replicate 2048 (0 :: byte) = replicate 20 0 @ replicate 2028 0"
    by (simp flip: replicate_add)
  moreover have "replicate 20 (0 :: byte)
      = [0, 0, 0, 0, 0, 0, 0, 0, 0, 0, 0, 0, 0, 0, 0, 0, 0, 0, 0, 0]"
    by (simp add: eval_nat_numeral)
  ultimately show ?thesis by simp
qed

lemma ip_packet_len_add: "ip_packet_len n = 20 + n"
  by (simp add: ip_packet_len_def)

lemma unat_ip_packet_len_mod: "unat (ip_packet_len n) = (20 + unat n) mod 65536"
  by (simp only: ip_packet_len_def unat_of_nat) simp

lemma unat_ip_packet_len: "unat n \<le> 65515 \<Longrightarrow> unat (ip_packet_len n) = 20 + unat n"
  by (simp only: unat_ip_packet_len_mod) simp

lemma ipv4_send_frame:
  assumes n: "unat n \<le> 2014" and P: "unat n \<le> length P"
    and mac: "6 \<le> length (mac_address nic)"
  shows "ipv4_send e nic D T P n =
           SendPacket nic
             (replicate 6 0xFF @ take 6 (mac_address nic) @ [0x08, 0x00]
              @ header_image e nic D T n (rfc1071_checksum e (header_image e nic D T n 0))
              @ take (unat n) P)"
proof -
  let ?H = "header_image e nic D T n (rfc1071_checksum e (header_image e nic D T n 0))"
  let ?pl = "take (unat n) P"
  let ?mac = "take 6 (mac_address nic)"
  have len: "unat (ip_packet_len n) = 20 + unat n"
    using n by (simp add: unat_ip_packet_len)
  have pl: "length ?pl = unat n" using P by simp
  have ml: "length ?mac = 6" using mac by simp
  have s1: "ipv4_write_header e nic D T n (replicate 2048 0) = Some (?H @ replicate 2028 0)"
    unfolding zeros_2048 by (rule write_header_cons)
  have s2: "memcpy (?H @ replicate 2028 0) 20 P 0 (unat n)
              = Some (?H @ ?pl @ replicate (2028 - unat n) 0)"
    using n P by (simp add: memcpy_append)
  have s3: "memcpy (replicate 2048 0) 0 (replicate 6 0xFF) 0 6
              = Some (replicate 6 0xFF @ replicate 2042 0)"
    using memcpy_append [of 6 "replicate 6 0xFF" "[]" 0 "replicate 2048 0"] by simp
  have s4: "memcpy (replicate 6 0xFF @ replicate 2042 0) 6 (mac_address nic) 0 6
              = Some (replicate 6 0xFF @ ?mac @ replicate 2036 0)"
    using mac by (simp add: memcpy_append)
  have s5: "memcpy (replicate 6 0xFF @ ?mac @ replicate 2036 0) 12
                (store16 e (htons e 0x0800)) 0 2
              = Some (replicate 6 0xFF @ ?mac @ [0x08, 0x00] @ replicate 2034 0)"
    using ml
      memcpy_append [of 2 "store16 e (htons e 0x0800)" "replicate 6 0xFF @ ?mac" 12
        "replicate 2036 0"]
    by (simp add: store16_htons)
  have rd: "read_bytes (?H @ ?pl @ replicate (2028 - unat n) 0) 0 (20 + unat n) = Some (?H @ ?pl)"
    using read_bytes_prefix [of "?H @ ?pl" "20 + unat n" "replicate (2028 - unat n) 0"] pl
    by simp
  have s6: "memcpy (replicate 6 0xFF @ ?mac @ [0x08, 0x00] @ replicate 2034 0) 14
                (?H @ ?pl @ replicate (2028 - unat n) 0) 0 (20 + unat n)
              = Some (replicate 6 0xFF @ ?mac @ [0x08, 0x00] @ ?H @ ?pl
                      @ replicate (2014 - unat n) 0)"
    using ml n pl
      write_bytes_append [of "replicate 6 0xFF @ ?mac @ [0x08, 0x00]" 14 "?H @ ?pl"
        "replicate 2034 0"]
    by (simp add: memcpy_def rd)
  have s7: "read_bytes (replicate 6 0xFF @ ?mac @ [0x08, 0x00] @ ?H @ ?pl
                      @ replicate (2014 - unat n) 0) 0 (20 + unat n + 14)
              = Some (replicate 6 0xFF @ ?mac @ [0x08, 0x00] @ ?H @ ?pl)"
    using ml pl
      read_bytes_prefix [of "replicate 6 0xFF @ ?mac @ [0x08, 0x00] @ ?H @ ?pl"
        "20 + unat n + 14" "replicate (2014 - unat n) 0"]
    by simp
  show ?thesis
    by (simp only: ipv4_send_def s1 s2 s3 s4 s5 len s6 s7 bind.bind_lunit option.case)
qed

lemma write_bytes_length: "write_bytes mem off bs = Some mem' \<Longrightarrow> length mem' = length mem"
  by (auto simp: write_bytes_def split: if_splits)

lemma memcpy_length: "memcpy dst doff src soff n = Some dst' \<Longrightarrow> length dst' = length dst"
  by (auto simp: memcpy_def write_bytes_length split: Option.bind_splits)

lemma memcpy_fits: "memcpy dst doff src soff n = Some dst' \<Longrightarrow> doff + n \<le> length dst \<and> soff + n \<le> length src"
  by (auto simp: memcpy_def write_bytes_def read_bytes_def split: Option.bind_splits if_splits)

lemma ipv4_write_header_length:
  "ipv4_write_header e nic D T n buffer = Some b \<Longrightarrow> length b = length buffer"
  by (auto simp: ipv4_write_header_def split: Option.bind_splits dest!: write_bytes_length)

lemma ipv4_send_overflow:
  assumes "2014 < unat n"
  shows "ipv4_send e nic D T P n = TxOutOfBounds"
proof (rule ccontr)
  assume "ipv4_send e nic D T P n \<noteq> TxOutOfBounds"
  then obtain b1 b2 e1 e2 e3 e4 where
    h: "ipv4_write_header e nic D T n (replicate 2048 0) = Some b1"
    and m1: "memcpy b1 20 P 0 (unat n) = Some b2"
    and m2: "memcpy (replicate 2048 0) 0 (replicate 6 0xFF) 0 6 = Some e1"
    and m3: "memcpy e1 6 (mac_address nic) 0 6 = Some e2"
    and m4: "memcpy e2 12 (store16 e (htons e 0x0800)) 0 2 = Some e3"
    and m5: "memcpy e3 14 b2 0 (unat (ip_packet_len n)) = Some e4"
    by (auto simp: ipv4_send_def split: Option.bind_splits option.splits)
  have "length b1 = 2048" using ipv4_write_header_length [OF h] by simp
  with memcpy_fits [OF m1] have n: "unat n \<le> 2028" by simp
  then have len: "unat (ip_packet_len n) = 20 + unat n" by (simp add: unat_ip_packet_len)
  have "length e3 = 2048"
    using memcpy_length [OF m2] memcpy_length [OF m3] memcpy_length [OF m4] by simp
  with memcpy_fits [OF m5] len have "unat n \<le> 2014" by simp
  with assms show False by simp
qed

lemma ipv4_send_SendPacketD:
  assumes "ipv4_send e nic D T P n = SendPacket nic' frame"
  shows "unat n \<le> 2014" and "unat n \<le> length P" and "6 \<le> length (mac_address nic)"
proof -
  show "unat n \<le> 2014"
  proof (rule ccontr)
    assume "\<not> unat n \<le> 2014"
    then have "ipv4_send e nic D T P n = TxOutOfBounds" by (simp add: ipv4_send_overflow)
    with assms show False by simp
  qed
  from assms obtain b1 b2 e1 e2 where
    "ipv4_write_header e nic D T n (replicate 2048 0) = Some b1"
    and m1: "memcpy b1 20 P 0 (unat n) = Some b2"
    and "memcpy (replicate 2048 0) 0 (replicate 6 0xFF) 0 6 = Some e1"
    and m3: "memcpy e1 6 (mac_address nic) 0 6 = Some e2"
    by (auto simp: ipv4_send_def split: Option.bind_splits option.splits)
  from memcpy_fits [OF m1] show "unat n \<le> length P" by simp
  from memcpy_fits [OF m3] show "6 \<le> length (mac_address nic)" by simp
qed

section \<open>A stored checksum makes the header sum to zero\<close>

lemma unat_not16: "unat (NOT (x :: 16 word)) = 65535 - unat x"
proof -
  have "NOT x = - 1 - x" by (simp add: not_eq_complement)
  moreover have "unat (- 1 - x) = unat (- 1 :: 16 word) - unat x"
    by (rule unat_sub) simp
  moreover have "unat (- 1 :: 16 word) = 65535"
    by (simp add: unsigned_minus_1_eq_mask mask_eq_exp_minus_1)
  ultimately show ?thesis by simp
qed

lemma rfc1071_fold_le: "rfc1071_fold s \<le> 65535"
proof -
  have "(s - 1) mod 65535 < 65535" by simp
  then have "(s - 1) mod 65535 + 1 \<le> 65535" by linarith
  then show ?thesis unfolding rfc1071_fold_closed by (simp del: One_nat_def)
qed

lemma rfc1071_fold_complement: "rfc1071_fold (s + (65535 - rfc1071_fold s)) = 65535"
proof (cases "s = 0")
  case True
  then show ?thesis by (simp add: rfc1071_fold_closed)
next
  case False
  define k m where "k = (s - 1) div 65535" and "m = (s - 1) mod 65535"
  have s: "s = 65535 * k + m + 1" using False by (simp add: k_def m_def)
  have m: "m < 65535" by (simp add: m_def)
  have f: "rfc1071_fold s = m + 1" using False by (simp add: rfc1071_fold_closed m_def)
  have "65535 * k + m + 1 + (65535 - (m + 1)) - 1 = 65534 + k * 65535"
    using m by simp
  then have "s + (65535 - rfc1071_fold s) - 1 = 65534 + k * 65535"
    unfolding f using s by simp
  then have "(s + (65535 - rfc1071_fold s) - 1) mod 65535 = 65534"
    by (simp only: mod_mult_self1) simp
  moreover have "s + (65535 - rfc1071_fold s) \<noteq> 0" using False by simp
  ultimately show ?thesis by (simp add: rfc1071_fold_closed)
qed

lemma unat_rfc1071_checksum:
  "unat (rfc1071_checksum e bytes) = 65535 - rfc1071_fold (sum_list (rfc1071_words e bytes))"
proof -
  have "rfc1071_fold (sum_list (rfc1071_words e bytes)) < 2 ^ LENGTH(16)"
    using rfc1071_fold_le [of "sum_list (rfc1071_words e bytes)"] by simp
  then have "unat (word_of_nat (rfc1071_fold (sum_list (rfc1071_words e bytes))) :: 16 word)
      = rfc1071_fold (sum_list (rfc1071_words e bytes))"
    by (simp only: unat_of_nat mod_less)
  then show ?thesis by (simp only: rfc1071_checksum_def unat_not16)
qed

lemma rfc1071_checksum_stored:
  assumes "even (length pre)"
  shows "rfc1071_checksum e (pre @ store16 e (rfc1071_checksum e (pre @ store16 e 0 @ post)) @ post) = 0"
proof -
  define s where "s = sum_list (rfc1071_words e pre) + sum_list (rfc1071_words e post)"
  have zero: "sum_list (rfc1071_words e (pre @ store16 e 0 @ post)) = s"
    using assms by (simp add: rfc1071_words_append rfc1071_words_store16 s_def)
  have "sum_list (rfc1071_words e
          (pre @ store16 e (rfc1071_checksum e (pre @ store16 e 0 @ post)) @ post))
        = s + (65535 - rfc1071_fold s)"
    using assms
    by (simp add: rfc1071_words_append rfc1071_words_store16 unat_rfc1071_checksum zero)
      (simp add: s_def)
  then show ?thesis
    by (simp add: rfc1071_checksum_def rfc1071_fold_complement)
qed

lemma header_image_checksum:
  "rfc1071_checksum e (header_image e nic D T n (rfc1071_checksum e (header_image e nic D T n 0))) = 0"
proof -
  let ?pre = "[0x45, 0, ucast (drop_bit 8 (ip_packet_len n)), ucast (ip_packet_len n),
      0, 0, 0, 0, 64, T] :: byte list"
  have "even (length ?pre)" by simp
  then show ?thesis
    unfolding header_image_def
    by (rule rfc1071_checksum_stored [where post = "store32 e (ip_address nic) @ store32 e D"])
qed

section \<open>Facts about the receive path\<close>

lemma ipv4_checksum_None_iff: "ipv4_checksum e mem len = None \<longleftrightarrow> length mem < len"
  by (simp add: ipv4_checksum_eq)

lemma ipv4_checksum_Some_length: "ipv4_checksum e mem len = Some c \<Longrightarrow> len \<le> length mem"
  by (simp add: ipv4_checksum_eq split: if_splits)

lemma header_image_fields:
  fixes e nic D T n c pl
  defines "packet \<equiv> header_image e nic D T n c @ pl"
  shows "read8 packet 0 = Some 0x45"
    and "\<exists>tl. read16 e packet 2 = Some tl \<and> ntohs e tl = ip_packet_len n"
    and "read8 packet 9 = Some T"
    and "read32 e packet 12 = Some (ip_address nic)"
    and "read32 e packet 16 = Some D"
proof -
  obtain s0 s1 s2 s3 where src: "store32 e (ip_address nic) = [s0, s1, s2, s3]"
    by (rule store32_cases)
  obtain d0 d1 d2 d3 where dst: "store32 e D = [d0, d1, d2, d3]"
    by (rule store32_cases)
  obtain c0 c1 where c: "store16 e c = [c0, c1]"
    by (rule store16_cases)
  note img = packet_def header_image_def src dst c
  show "read8 packet 0 = Some 0x45" by (simp add: img read8_def)
  show "\<exists>tl. read16 e packet 2 = Some tl \<and> ntohs e tl = ip_packet_len n"
    by (simp add: img read16_def ntohs_load16 word_cat_bytes)
  show "read8 packet 9 = Some T" by (simp add: img read8_def)
  show "read32 e packet 12 = Some (ip_address nic)"
    by (simp add: img read32_def load32_store32 [OF src])
  show "read32 e packet 16 = Some D"
    by (simp add: img read32_def load32_store32 [OF dst])
qed

lemma ipv4_checksum_header_image:
  "ipv4_checksum e
     (header_image e nic D T n (rfc1071_checksum e (header_image e nic D T n 0)) @ pl) 20
   = Some 0"
  by (subst ipv4_checksum_rfc1071) (simp_all add: header_image_checksum)

lemma ipv4_demux_header_image:
  fixes e snic rnic D T n c pl
  defines "packet \<equiv> header_image e snic D T n c @ pl"
  shows "ipv4_demux e rnic packet =
     (if T = 1 then IcmpReceive rnic (ip_address snic) 20 n
      else if 0 < n then
        (case read_bytes packet 20 (if 16 < unat n then 16 else unat n) of
           None \<Rightarrow> DumpOutOfBounds
         | Some shown \<Rightarrow> Logged (ip_address snic) T n shown)
      else Logged (ip_address snic) T n [])"
proof -
  obtain tl where tl: "read16 e packet 2 = Some tl" "ntohs e tl = ip_packet_len n"
    using header_image_fields(2) [where e = e and nic = snic and D = D and T = T and n = n
        and c = c and pl = pl] unfolding packet_def by blast
  have f: "read8 packet 0 = Some 0x45" "read8 packet 9 = Some T"
    "read32 e packet 12 = Some (ip_address snic)"
    unfolding packet_def by (rule header_image_fields)+
  show ?thesis
    by (simp add: ipv4_demux_def f tl ip_packet_len_add)
qed

lemma ipv4_receive_header_image:
  fixes e snic rnic D T n pl len
  defines "packet \<equiv>
    header_image e snic D T n (rfc1071_checksum e (header_image e snic D T n 0)) @ pl"
  shows "ipv4_receive e rnic packet len =
     (if D \<noteq> ip_address rnic \<and> D \<noteq> 0xFFFFFFFF then Dropped else ipv4_demux e rnic packet)"
  unfolding packet_def
  by (simp add: ipv4_receive_def ipv4_checksum_header_image header_image_fields)

lemma header_reads:
  assumes "20 \<le> length packet"
  shows "read8 packet 0 = Some (packet ! 0)"
    and "read16 e packet 2 = Some (load16 e (packet ! 2) (packet ! 3))"
    and "read8 packet 9 = Some (packet ! 9)"
    and "read32 e packet 12 = Some (load32 e (packet ! 12) (packet ! 13) (packet ! 14) (packet ! 15))"
    and "read32 e packet 16 = Some (load32 e (packet ! 16) (packet ! 17) (packet ! 18) (packet ! 19))"
  using assms by (auto simp: read8_def read16_def read32_def)

lemma ipv4_demux_dispatched: "20 \<le> length packet \<Longrightarrow> dispatched (ipv4_demux e nic packet)"
  by (simp add: ipv4_demux_def header_reads Let_def split: option.splits)

lemma packet_a_checksum:
  "ipv4_checksum LittleEndian
     [0x46, 0x00, 0x00, 0x1C, 0x00, 0x00, 0x00, 0x00, 0x40, 0x01, 0x6F, 0xE1,
      0x0A, 0x00, 0x00, 0x01, 0xFF, 0xFF, 0xFF, 0xFF,
      0x00, 0x00, 0x00, 0x00, 0xDE, 0xAD, 0xBE, 0xEF] 20 = Some 0"
  by (subst ipv4_checksum_rfc1071)
    (simp_all add: rfc1071_checksum_def rfc1071_fold_closed word_cat_eq)






section \<open>Claim C1: the round trip\<close>

text \<open>
  Claim C1, as stated for every payload and every destination, fails. With the
  sending device's address as the receiving device's address, a packet sent to another
  destination (here \<open>10.0.0.2\<close> from \<open>10.0.0.1\<close>) is dropped by the destination
  filter; and a payload of 2015 bytes does not fit the arrays of \<open>ipv4_send\<close>, so no
  packet is produced at all.
\<close>

theorem ipv4_round_trip_counterexample:
  "ipv4_send LittleEndian \<lparr>ip_address = 0x0100000A, mac_address = [2, 0, 0, 0, 0, 1]\<rparr>
     0x0200000A 1 [] 0
   = SendPacket \<lparr>ip_address = 0x0100000A, mac_address = [2, 0, 0, 0, 0, 1]\<rparr>
       ([0xFF, 0xFF, 0xFF, 0xFF, 0xFF, 0xFF, 2, 0, 0, 0, 0, 1, 0x08, 0x00] @
        [0x45, 0x00, 0x00, 0x14, 0x00, 0x00, 0x00, 0x00, 0x40, 0x01, 0x66, 0xE7,
         0x0A, 0x00, 0x00, 0x01, 0x0A, 0x00, 0x00, 0x02]) \<and>
   ipv4_receive LittleEndian \<lparr>ip_address = 0x0100000A, mac_address = [2, 0, 0, 0, 0, 1]\<rparr>
     [0x45, 0x00, 0x00, 0x14, 0x00, 0x00, 0x00, 0x00, 0x40, 0x01, 0x66, 0xE7,
      0x0A, 0x00, 0x00, 0x01, 0x0A, 0x00, 0x00, 0x02] 20 = Dropped \<and>
   ipv4_send LittleEndian \<lparr>ip_address = 0x0100000A, mac_address = [2, 0, 0, 0, 0, 1]\<rparr>
     0x0100000A 1 (replicate 2015 0) 2015 = TxOutOfBounds"
proof -
  let ?nic = "\<lparr>ip_address = 0x0100000A, mac_address = [2, 0, 0, 0, 0, 1]\<rparr>"
  let ?p = "[0x45, 0x00, 0x00, 0x14, 0x00, 0x00, 0x00, 0x00, 0x40, 0x01, 0x66, 0xE7,
      0x0A, 0x00, 0x00, 0x01, 0x0A, 0x00, 0x00, 0x02] :: byte list"
  have src: "store32 LittleEndian (ip_address ?nic) = [0x0A, 0x00, 0x00, 0x01]"
    and dst: "store32 LittleEndian 0x0200000A = [0x0A, 0x00, 0x00, 0x02]"
    and ck: "store16 LittleEndian 0xE766 = [0x66, 0xE7]"
    by simp_all
  have img: "header_image LittleEndian ?nic 0x0200000A 1 0 0 =
      [0x45, 0x00, 0x00, 0x14, 0x00, 0x00, 0x00, 0x00, 0x40, 0x01, 0x00, 0x00,
       0x0A, 0x00, 0x00, 0x01, 0x0A, 0x00, 0x00, 0x02]"
    unfolding header_image_def src dst by (simp add: ip_packet_len_def)
  have c: "rfc1071_checksum LittleEndian (header_image LittleEndian ?nic 0x0200000A 1 0 0) = 0xE766"
    unfolding img by (simp add: rfc1071_checksum_def rfc1071_fold_closed word_cat_eq)
  have img': "header_image LittleEndian ?nic 0x0200000A 1 0 0xE766 = ?p"
    unfolding header_image_def src dst ck by (simp add: ip_packet_len_def)
  have six: "replicate 6 (0xFF :: byte) = [0xFF, 0xFF, 0xFF, 0xFF, 0xFF, 0xFF]"
    by (simp add: eval_nat_numeral)
  have h: "unat (0 :: 16 word) \<le> 2014" "unat (0 :: 16 word) \<le> length ([] :: byte list)"
    "6 \<le> length (mac_address ?nic)"
    by simp_all
  have sent: "ipv4_send LittleEndian ?nic 0x0200000A 1 [] 0
      = SendPacket ?nic ([0xFF, 0xFF, 0xFF, 0xFF, 0xFF, 0xFF, 2, 0, 0, 0, 0, 1, 0x08, 0x00] @ ?p)"
    unfolding ipv4_send_frame [OF h] c img' six by simp
  have ckp: "ipv4_checksum LittleEndian ?p 20 = Some 0"
    by (subst ipv4_checksum_rfc1071)
      (simp_all add: rfc1071_checksum_def rfc1071_fold_closed word_cat_eq)
  have rd: "read32 LittleEndian ?p 16 = Some 0x0200000A"
    by (simp add: read32_def word_cat_eq)
  have dropped: "ipv4_receive LittleEndian ?nic ?p 20 = Dropped"
    by (simp add: ipv4_receive_def ckp rd)
  have over: "ipv4_send LittleEndian ?nic 0x0100000A 1 (replicate 2015 0) 2015 = TxOutOfBounds"
    by (rule ipv4_send_overflow) simp
  from sent dropped over show ?thesis by (intro conjI)
qed

text \<open>
  Claim C1, amended: for every payload \<open>P\<close> of at most 2014 bytes, every protocol
  \<open>T\<close> and every destination \<open>D\<close> that is the receiving device's address or the
  all-ones address (the sending device's link address being 6 bytes), \<open>ipv4_send\<close>
  hands a frame to the driver, and \<open>ipv4_receive\<close> on the IPv4 packet of that frame
  (the frame without its 14 link header bytes) reaches the protocol branch with the
  source address of the sending device, the protocol \<open>T\<close>, the payload length
  \<open>|P|\<close> and a payload region that holds exactly \<open>P\<close>: for \<open>T = 1\<close> these
  are the arguments of the ICMP handler; for every other \<open>T\<close> the fallback branch
  logs the source address, \<open>T\<close>, \<open>|P|\<close> and the first 16 bytes of \<open>P\<close> at most.
\<close>

theorem ipv4_round_trip:
  assumes "length P \<le> 2014" and "length (mac_address snic) = 6"
    and "D = ip_address rnic \<or> D = 0xFFFFFFFF"
  shows "\<exists>frame.
      ipv4_send e snic D T P (word_of_nat (length P)) = SendPacket snic frame \<and>
      read_bytes (drop 14 frame) 20 (length P) = Some P \<and>
      ipv4_receive e rnic (drop 14 frame) len =
        (if T = 1 then IcmpReceive rnic (ip_address snic) 20 (word_of_nat (length P))
         else Logged (ip_address snic) T (word_of_nat (length P)) (take 16 P))"
proof -
  define n :: "16 word" where "n = word_of_nat (length P)"
  let ?H = "header_image e snic D T n (rfc1071_checksum e (header_image e snic D T n 0))"
  let ?frame = "replicate 6 0xFF @ take 6 (mac_address snic) @ [0x08, 0x00] @ ?H @ take (unat n) P"
  have "length P < 2 ^ 16" using assms(1) by simp
  then have un: "unat n = length P" by (simp add: n_def unat_of_nat)
  have sent: "ipv4_send e snic D T P n = SendPacket snic ?frame"
    using assms(1,2) un by (intro ipv4_send_frame) simp_all
  have packet: "drop 14 ?frame = ?H @ P"
    using assms(2) un by simp
  have region: "read_bytes (?H @ P) 20 (length P) = Some P"
    by (simp add: read_bytes_def)
  have pos: "0 < n \<longleftrightarrow> P \<noteq> []"
    using un by (simp add: word_greater_zero_iff unat_eq_0 [symmetric])
  have shown: "read_bytes (?H @ P) 20 (if 16 < unat n then 16 else unat n) = Some (take 16 P)"
    using un by (simp add: read_bytes_def)
  have "ipv4_receive e rnic (?H @ P) len = ipv4_demux e rnic (?H @ P)"
    using assms(3) by (auto simp: ipv4_receive_header_image)
  also have "\<dots> = (if T = 1 then IcmpReceive rnic (ip_address snic) 20 n
         else Logged (ip_address snic) T n (take 16 P))"
    by (simp add: ipv4_demux_header_image shown pos)
  finally have rx: "ipv4_receive e rnic (?H @ P) len =
      (if T = 1 then IcmpReceive rnic (ip_address snic) 20 n
         else Logged (ip_address snic) T n (take 16 P))" .
  have "read_bytes (drop 14 ?frame) 20 (length P) = Some P"
    using region by (simp only: packet)
  moreover have "ipv4_receive e rnic (drop 14 ?frame) len =
      (if T = 1 then IcmpReceive rnic (ip_address snic) 20 n
         else Logged (ip_address snic) T n (take 16 P))"
    using rx by (simp only: packet)
  ultimately have "\<exists>frame.
      ipv4_send e snic D T P n = SendPacket snic frame \<and>
      read_bytes (drop 14 frame) 20 (length P) = Some P \<and>
      ipv4_receive e rnic (drop 14 frame) len =
        (if T = 1 then IcmpReceive rnic (ip_address snic) 20 n
         else Logged (ip_address snic) T n (take 16 P))"
    using sent by blast
  then show ?thesis unfolding n_def .
qed

text \<open>
  The theorem of claim C1 at the payload \<open>[0xAB, 0xCD]\<close> sent as ICMP from
  \<open>10.0.0.1\<close> to \<open>10.0.0.2\<close>, received by the device \<open>10.0.0.2\<close>.
\<close>

theorem ipv4_round_trip_witness:
  "ipv4_receive LittleEndian \<lparr>ip_address = 0x0200000A, mac_address = [2, 0, 0, 0, 0, 2]\<rparr>
     [0x45, 0x00, 0x00, 0x16, 0x00, 0x00, 0x00, 0x00, 0x40, 0x01, 0x66, 0xE5,
      0x0A, 0x00, 0x00, 0x01, 0x0A, 0x00, 0x00, 0x02, 0xAB, 0xCD] 22
   = IcmpReceive \<lparr>ip_address = 0x0200000A, mac_address = [2, 0, 0, 0, 0, 2]\<rparr> 0x0100000A 20 2 \<and>
   read_bytes
     [0x45, 0x00, 0x00, 0x16, 0x00, 0x00, 0x00, 0x00, 0x40, 0x01, 0x66, 0xE5,
      0x0A, 0x00, 0x00, 0x01, 0x0A, 0x00, 0x00, 0x02, 0xAB, 0xCD] 20 2 = Some [0xAB, 0xCD]"
proof -
  let ?snic = "\<lparr>ip_address = 0x0100000A, mac_address = [2, 0, 0, 0, 0, 1]\<rparr>"
  let ?rnic = "\<lparr>ip_address = 0x0200000A, mac_address = [2, 0, 0, 0, 0, 2]\<rparr>"
  let ?p = "[0x45, 0x00, 0x00, 0x16, 0x00, 0x00, 0x00, 0x00, 0x40, 0x01, 0x66, 0xE5,
      0x0A, 0x00, 0x00, 0x01, 0x0A, 0x00, 0x00, 0x02, 0xAB, 0xCD] :: byte list"
  have src: "store32 LittleEndian (ip_address ?snic) = [0x0A, 0x00, 0x00, 0x01]"
    and dst: "store32 LittleEndian 0x0200000A = [0x0A, 0x00, 0x00, 0x02]"
    and ck: "store16 LittleEndian 0xE566 = [0x66, 0xE5]"
    by simp_all
  have img: "header_image LittleEndian ?snic 0x0200000A 1 2 0 =
      [0x45, 0x00, 0x00, 0x16, 0x00, 0x00, 0x00, 0x00, 0x40, 0x01, 0x00, 0x00,
       0x0A, 0x00, 0x00, 0x01, 0x0A, 0x00, 0x00, 0x02]"
    unfolding header_image_def src dst by (simp add: ip_packet_len_def)
  have c: "rfc1071_checksum LittleEndian (header_image LittleEndian ?snic 0x0200000A 1 2 0) = 0xE566"
    unfolding img by (simp add: rfc1071_checksum_def rfc1071_fold_closed word_cat_eq)
  have img': "header_image LittleEndian ?snic 0x0200000A 1 2 0xE566 @ [0xAB, 0xCD] = ?p"
    unfolding header_image_def src dst ck by (simp add: ip_packet_len_def)
  have six: "replicate 6 (0xFF :: byte) = [0xFF, 0xFF, 0xFF, 0xFF, 0xFF, 0xFF]"
    by (simp add: eval_nat_numeral)
  have two: "(word_of_nat (length [0xAB, 0xCD :: byte]) :: 16 word) = 2" by simp
  have h: "unat (2 :: 16 word) \<le> 2014" "unat (2 :: 16 word) \<le> length [0xAB, 0xCD :: byte]"
    "6 \<le> length (mac_address ?snic)"
    by simp_all
  have sent: "ipv4_send LittleEndian ?snic 0x0200000A 1 [0xAB, 0xCD] 2
      = SendPacket ?snic ([0xFF, 0xFF, 0xFF, 0xFF, 0xFF, 0xFF, 2, 0, 0, 0, 0, 1, 0x08, 0x00] @ ?p)"
    unfolding ipv4_send_frame [OF h] c six img' [symmetric] by simp
  have a: "length [0xAB, 0xCD :: byte] \<le> 2014" and b: "length (mac_address ?snic) = 6"
    and d: "(0x0200000A :: 32 word) = ip_address ?rnic \<or> (0x0200000A :: 32 word) = 0xFFFFFFFF"
    by simp_all
  from ipv4_round_trip [OF a b d, of LittleEndian 1 22, unfolded two sent]
  show ?thesis by (simp add: read_bytes_def)
qed

section \<open>Claim C2: the checksum function\<close>

lemma load16_ff: "load16 e 0xFF 0xFF = 0xFFFF"
  by (cases e) (simp_all add: word_cat_eq)

lemma rfc1071_words_replicate_ff:
  "rfc1071_words e (replicate (2 * k) 0xFF @ [0xFF]) = replicate k 65535 @ [255]"
  by (induction k) (simp_all add: load16_ff)

lemma rfc1071_sum_replicate_ff:
  "sum_list (rfc1071_words e (replicate 131075 0xFF)) = 4294967550"
proof -
  have "replicate 131075 (0xFF :: byte) = replicate (2 * 65537 + 1) 0xFF" by simp
  also have "\<dots> = replicate (2 * 65537) 0xFF @ [0xFF]"
    by (simp only: replicate_add) simp
  finally show ?thesis
    by (simp only: rfc1071_words_replicate_ff sum_list_append sum_list_replicate) simp
qed

lemma wrap_254: "(4294967550 :: 32 word) = 254"
  by (simp add: word_unat_eq_iff)

lemma fold_carry_254: "fold_carry 4294967550 = 254"
  unfolding wrap_254 by (subst fold_carry.simps) simp

text \<open>
  Claim C2, as stated for a region of any length, fails: 131075 bytes \<open>0xFF\<close> sum to
  \<open>2\<^sup>3\<^sup>2 + 254\<close>, the 32-bit accumulator keeps 254 and loses the carry, and the
  function returns \<open>0xFF01\<close> where the checksum of the specification is \<open>0xFF00\<close>.
\<close>

theorem ipv4_checksum_long_region_counterexample:
  "ipv4_checksum LittleEndian (replicate 131075 0xFF) 131075
     \<noteq> Some (rfc1071_checksum LittleEndian (replicate 131075 0xFF))"
proof -
  have code: "ipv4_checksum LittleEndian (replicate 131075 0xFF) 131075 = Some 0xFF01"
    by (simp add: ipv4_checksum_eq rfc1071_sum_replicate_ff fold_carry_254)
  have spec: "rfc1071_checksum LittleEndian (replicate 131075 0xFF) = 0xFF00"
    by (simp add: rfc1071_checksum_def rfc1071_sum_replicate_ff rfc1071_fold_closed)
  show ?thesis unfolding code spec by simp
qed

text \<open>
  Claim C2, amended: for every byte region of at most 131074 bytes that lies inside
  the buffer, \<open>ipv4_checksum\<close> returns the RFC 1071 checksum as the specification
  words it: the complement of the sum of the 16-bit words as stored, an odd trailing
  byte counted as a word with high byte zero, every carry folded back.
\<close>

theorem ipv4_checksum_is_rfc1071:
  assumes "len \<le> length mem" and "len \<le> 131074"
  shows "ipv4_checksum e mem len = Some (rfc1071_checksum e (take len mem))"
proof -
  let ?total = "sum_list (rfc1071_words e (take len mem))"
  have "length (take len mem) \<le> 131074" using assms by simp
  then have small: "?total < 2 ^ 32" by (rule rfc1071_words_small)
  have "ipv4_checksum e mem len = Some (ucast (NOT (fold_carry (word_of_nat ?total))))"
    using assms(1) by (simp add: ipv4_checksum_eq)
  also have "ucast (NOT (fold_carry (word_of_nat ?total)))
      = (NOT (word_of_nat (rfc1071_fold ?total)) :: 16 word)"
    using small by (rule fold_carry_of_nat)
  finally show ?thesis by (simp only: rfc1071_checksum_def)
qed

text \<open>The theorem of claim C2 at a region of three bytes.\<close>

theorem ipv4_checksum_is_rfc1071_witness:
  "(3 :: nat) \<le> length [0x45, 0x00, 0x01 :: byte] \<and> (3 :: nat) \<le> 131074 \<and>
   ipv4_checksum LittleEndian [0x45, 0x00, 0x01] 3 = Some 0xFFB9"
  using ipv4_checksum_is_rfc1071 [of 3 "[0x45, 0x00, 0x01]" LittleEndian]
  by (simp add: rfc1071_checksum_def rfc1071_fold_closed word_cat_eq)

section \<open>Claim C3: frames shorter than a header\<close>

text \<open>
  Claim C3 says that a frame shorter than 20 bytes is rejected as malformed without a
  read past its end. The code does the opposite: \<open>ipv4_receive\<close> never looks at
  \<open>len\<close>, and for every packet buffer shorter than 20 bytes its first statement,
  the checksum over 20 bytes, reads past the end of the buffer.
\<close>

theorem ipv4_receive_short_frame_reads_out_of_bounds:
  assumes "length packet < 20"
  shows "ipv4_receive e nic packet len = RxOutOfBounds"
proof -
  have "ipv4_checksum e packet 20 = None"
    using assms by (simp only: ipv4_checksum_None_iff)
  then show ?thesis by (simp add: ipv4_receive_def)
qed

text \<open>The theorem of claim C3 at a buffer of two bytes.\<close>

theorem ipv4_receive_short_frame_witness:
  "length [0x45, 0x00 :: byte] < 20 \<and>
   ipv4_receive LittleEndian \<lparr>ip_address = 0x0100000A, mac_address = [2, 0, 0, 0, 0, 1]\<rparr>
     [0x45, 0x00] 2 = RxOutOfBounds"
  using ipv4_receive_short_frame_reads_out_of_bounds
    [of "[0x45, 0x00]" LittleEndian "\<lparr>ip_address = 0x0100000A, mac_address = [2, 0, 0, 0, 0, 1]\<rparr>" 2]
  by simp

section \<open>Claim C4: header length and payload length\<close>




section \<open>Claim C5: a header that fails the checksum\<close>

text \<open>
  Claim C5: if \<open>ipv4_checksum\<close> over the 20 header bytes exactly as received is
  nonzero, \<open>ipv4_receive\<close> returns by its first early return: no protocol handler
  is invoked, nothing is reported and nothing is kept (the outcome \<open>Dropped\<close> carries
  no data, and the function has no state).
\<close>

theorem ipv4_receive_bad_checksum_dropped:
  assumes "ipv4_checksum e packet 20 = Some c" and "c \<noteq> 0"
  shows "ipv4_receive e nic packet len = Dropped \<and> \<not> dispatched (ipv4_receive e nic packet len)"
proof -
  have "ipv4_receive e nic packet len = Dropped"
    using assms by (simp add: ipv4_receive_def)
  then show ?thesis by simp
qed

text \<open>
  The theorem of claim C5 at a header whose checksum field has one bit flipped
  (\<open>0xE9\<close> where \<open>0xE8\<close> is right).
\<close>

theorem ipv4_receive_bad_checksum_witness:
  "ipv4_checksum LittleEndian
     [0x45, 0x00, 0x00, 0x14, 0x00, 0x00, 0x00, 0x00, 0x40, 0x01, 0x66, 0xE9,
      0x0A, 0x00, 0x00, 0x01, 0x0A, 0x00, 0x00, 0x01] 20 = Some 0xFEFF \<and>
   (0xFEFF :: 16 word) \<noteq> 0 \<and>
   ipv4_receive LittleEndian \<lparr>ip_address = 0x0100000A, mac_address = [2, 0, 0, 0, 0, 1]\<rparr>
     [0x45, 0x00, 0x00, 0x14, 0x00, 0x00, 0x00, 0x00, 0x40, 0x01, 0x66, 0xE9,
      0x0A, 0x00, 0x00, 0x01, 0x0A, 0x00, 0x00, 0x01] 20 = Dropped"
proof -
  have ck: "ipv4_checksum LittleEndian
     [0x45, 0x00, 0x00, 0x14, 0x00, 0x00, 0x00, 0x00, 0x40, 0x01, 0x66, 0xE9,
      0x0A, 0x00, 0x00, 0x01, 0x0A, 0x00, 0x00, 0x01] 20 = Some 0xFEFF"
    by (subst ipv4_checksum_rfc1071)
      (simp_all add: rfc1071_checksum_def rfc1071_fold_closed word_cat_eq)
  have nz: "(0xFEFF :: 16 word) \<noteq> 0" by simp
  from ipv4_receive_bad_checksum_dropped [OF ck nz] ck nz show ?thesis by simp
qed

section \<open>Claim C6: the destination filter\<close>

text \<open>
  Claim C6: for every frame that passes the checksum check, \<open>ipv4_receive\<close> reaches
  the protocol branch if and only if the destination address of the header equals the
  device's own address or the all-ones address; in every other case it returns by the
  second early return.
\<close>

theorem ipv4_receive_destination_filter:
  assumes "ipv4_checksum e packet 20 = Some 0"
  shows "\<exists>dst. read32 e packet 16 = Some dst \<and>
           (dispatched (ipv4_receive e nic packet len)
              \<longleftrightarrow> dst = ip_address nic \<or> dst = 0xFFFFFFFF) \<and>
           (dst \<noteq> ip_address nic \<and> dst \<noteq> 0xFFFFFFFF
              \<longrightarrow> ipv4_receive e nic packet len = Dropped)"
proof -
  have len: "20 \<le> length packet" using assms by (rule ipv4_checksum_Some_length)
  let ?dst = "load32 e (packet ! 16) (packet ! 17) (packet ! 18) (packet ! 19)"
  have rd: "read32 e packet 16 = Some ?dst" using len by (rule header_reads)
  have rx: "ipv4_receive e nic packet len =
      (if ?dst \<noteq> ip_address nic \<and> ?dst \<noteq> 0xFFFFFFFF then Dropped else ipv4_demux e nic packet)"
    using assms by (simp add: ipv4_receive_def rd)
  have "dispatched (ipv4_demux e nic packet)" using len by (rule ipv4_demux_dispatched)
  with rx rd show ?thesis by auto
qed

text \<open>The theorem of claim C6 at a broadcast packet.\<close>

theorem ipv4_receive_destination_filter_witness:
  "ipv4_checksum LittleEndian
     [0x46, 0x00, 0x00, 0x1C, 0x00, 0x00, 0x00, 0x00, 0x40, 0x01, 0x6F, 0xE1,
      0x0A, 0x00, 0x00, 0x01, 0xFF, 0xFF, 0xFF, 0xFF,
      0x00, 0x00, 0x00, 0x00, 0xDE, 0xAD, 0xBE, 0xEF] 20 = Some 0 \<and>
   dispatched (ipv4_receive LittleEndian \<lparr>ip_address = 0x0100000A, mac_address = [2, 0, 0, 0, 0, 1]\<rparr>
     [0x46, 0x00, 0x00, 0x1C, 0x00, 0x00, 0x00, 0x00, 0x40, 0x01, 0x6F, 0xE1,
      0x0A, 0x00, 0x00, 0x01, 0xFF, 0xFF, 0xFF, 0xFF,
      0x00, 0x00, 0x00, 0x00, 0xDE, 0xAD, 0xBE, 0xEF] 28)"
proof -
  let ?p = "[0x46, 0x00, 0x00, 0x1C, 0x00, 0x00, 0x00, 0x00, 0x40, 0x01, 0x6F, 0xE1,
      0x0A, 0x00, 0x00, 0x01, 0xFF, 0xFF, 0xFF, 0xFF,
      0x00, 0x00, 0x00, 0x00, 0xDE, 0xAD, 0xBE, 0xEF] :: byte list"
  have rd: "read32 LittleEndian ?p 16 = Some 0xFFFFFFFF"
    by (simp add: read32_def word_cat_eq)
  from ipv4_receive_destination_filter [OF packet_a_checksum,
      of "\<lparr>ip_address = 0x0100000A, mac_address = [2, 0, 0, 0, 0, 1]\<rparr>" 28] rd
  show ?thesis by (simp add: packet_a_checksum)
qed

section \<open>Claim C7: the frame handed to the driver\<close>

text \<open>
  Claim C7, as stated for every call, fails: with a payload of 2015 bytes the copy of
  the packet into \<^verbatim>\<open>ethernet_buffer\<close> needs \<open>14 + 20 + 2015 = 2049\<close> bytes and leaves
  the array of 2048, so no frame is handed to the driver.
\<close>

theorem ipv4_send_frame_layout_counterexample:
  "ipv4_send LittleEndian \<lparr>ip_address = 0x0100000A, mac_address = [2, 0, 0, 0, 0, 1]\<rparr>
     0x0200000A 1 (replicate 2015 0) 2015 = TxOutOfBounds"
  by (rule ipv4_send_overflow) simp

text \<open>
  Claim C7, amended: for every call with \<open>n \<le> 2014\<close>, a payload buffer of at least
  \<open>n\<close> bytes and a link address of 6 bytes, the frame handed to the driver has
  \<open>14 + 20 + n\<close> bytes: six bytes \<open>0xFF\<close>, the device's link address, the ethertype
  \<open>0x0800\<close>, then the header (version/IHL \<open>0x45\<close>, type of service 0, total length
  \<open>20 + n\<close> in network byte order, identification 0, flags and fragment offset 0,
  time to live 64, protocol \<open>T\<close>, the checksum \<open>c\<close> of the header with that field
  zeroed, the device's address, the destination \<open>D\<close>), then the \<open>n\<close> payload bytes.
\<close>

theorem ipv4_send_frame_layout:
  assumes "unat n \<le> 2014" and "unat n \<le> length P" and "length (mac_address nic) = 6"
  shows "\<exists>c frame.
      ipv4_checksum e
        ([0x45, 0, ucast (drop_bit 8 (20 + n)), ucast (20 + n), 0, 0, 0, 0, 64, T, 0, 0]
         @ store32 e (ip_address nic) @ store32 e D) 20 = Some c \<and>
      frame =
        [0xFF, 0xFF, 0xFF, 0xFF, 0xFF, 0xFF] @ mac_address nic @ [0x08, 0x00]
        @ [0x45, 0, ucast (drop_bit 8 (20 + n)), ucast (20 + n), 0, 0, 0, 0, 64, T]
        @ store16 e c @ store32 e (ip_address nic) @ store32 e D
        @ take (unat n) P \<and>
      ipv4_send e nic D T P n = SendPacket nic frame \<and>
      length frame = 14 + 20 + unat n \<and>
      unat (20 + n) = 20 + unat n"
proof -
  let ?z = "[0x45, 0, ucast (drop_bit 8 (20 + n)), ucast (20 + n), 0, 0, 0, 0, 64, T, 0, 0]
         @ store32 e (ip_address nic) @ store32 e D"
  have z: "header_image e nic D T n 0 = ?z"
    by (simp add: header_image_def ip_packet_len_add store16_zero)
  have ck: "ipv4_checksum e ?z 20 = Some (rfc1071_checksum e ?z)"
    by (subst ipv4_checksum_rfc1071) simp_all
  have six: "replicate 6 (0xFF :: byte) = [0xFF, 0xFF, 0xFF, 0xFF, 0xFF, 0xFF]"
    by (simp add: eval_nat_numeral)
  have sent: "ipv4_send e nic D T P n =
      SendPacket nic
        ([0xFF, 0xFF, 0xFF, 0xFF, 0xFF, 0xFF] @ mac_address nic @ [0x08, 0x00]
         @ [0x45, 0, ucast (drop_bit 8 (20 + n)), ucast (20 + n), 0, 0, 0, 0, 64, T]
         @ store16 e (rfc1071_checksum e ?z) @ store32 e (ip_address nic) @ store32 e D
         @ take (unat n) P)"
    using ipv4_send_frame [of n P nic e D T] assms
    by (simp only: z six) (simp add: header_image_def ip_packet_len_add)
  have len: "unat (20 + n) = 20 + unat n"
    using assms(1) unat_ip_packet_len [of n] by (simp add: ip_packet_len_add)
  show ?thesis
    using ck sent len assms by (intro exI conjI) (assumption | simp)+
qed

text \<open>The theorem of claim C7 at a payload of two bytes, on a little-endian host.\<close>

theorem ipv4_send_frame_layout_witness:
  "unat (2 :: 16 word) \<le> 2014 \<and> unat (2 :: 16 word) \<le> length [0xAB, 0xCD :: byte] \<and>
   length (mac_address \<lparr>ip_address = 0x0100000A, mac_address = [2, 0, 0, 0, 0, 1]\<rparr>) = 6 \<and>
   ipv4_send LittleEndian \<lparr>ip_address = 0x0100000A, mac_address = [2, 0, 0, 0, 0, 1]\<rparr>
     0x0200000A 1 [0xAB, 0xCD] 2
   = SendPacket \<lparr>ip_address = 0x0100000A, mac_address = [2, 0, 0, 0, 0, 1]\<rparr>
       [0xFF, 0xFF, 0xFF, 0xFF, 0xFF, 0xFF, 2, 0, 0, 0, 0, 1, 0x08, 0x00,
        0x45, 0x00, 0x00, 0x16, 0x00, 0x00, 0x00, 0x00, 0x40, 0x01, 0x66, 0xE5,
        0x0A, 0x00, 0x00, 0x01, 0x0A, 0x00, 0x00, 0x02, 0xAB, 0xCD]"
proof -
  let ?nic = "\<lparr>ip_address = 0x0100000A, mac_address = [2, 0, 0, 0, 0, 1]\<rparr>"
  have h: "unat (2 :: 16 word) \<le> 2014" "unat (2 :: 16 word) \<le> length [0xAB, 0xCD :: byte]"
    "length (mac_address ?nic) = 6"
    by simp_all
  have ck: "ipv4_checksum LittleEndian
      [0x45, 0x00, 0x00, 0x16, 0x00, 0x00, 0x00, 0x00, 0x40, 0x01, 0x00, 0x00,
       0x0A, 0x00, 0x00, 0x01, 0x0A, 0x00, 0x00, 0x02] 20 = Some 0xE566"
    by (subst ipv4_checksum_rfc1071)
      (simp_all add: rfc1071_checksum_def rfc1071_fold_closed word_cat_eq)
  have src: "store32 LittleEndian (ip_address ?nic) = [0x0A, 0x00, 0x00, 0x01]"
    and dst: "store32 LittleEndian 0x0200000A = [0x0A, 0x00, 0x00, 0x02]"
    by simp_all
  from ipv4_send_frame_layout [OF h, of LittleEndian 1 "0x0200000A", unfolded src dst] ck h
  show ?thesis by simp
qed

section \<open>Claim C8: the stored checksum\<close>

text \<open>
  Claim C8: the header \<open>ipv4_send\<close> constructs, its checksum field holding the value
  computed with that field zeroed, checksums to zero as a whole. This holds for the
  header lines 37 to 51 leave in \<open>buffer\<close>, whatever the arguments, and for the header
  inside every frame handed to the driver.
\<close>

theorem ipv4_send_header_checksums_to_zero:
  "(\<exists>buffer. ipv4_write_header e nic D T n (replicate 2048 0) = Some buffer \<and>
       ipv4_checksum e buffer 20 = Some 0) \<and>
   (ipv4_send e nic D T P n = SendPacket nic' frame
      \<longrightarrow> ipv4_checksum e (drop 14 frame) 20 = Some 0)"
proof (intro conjI impI)
  let ?H = "header_image e nic D T n (rfc1071_checksum e (header_image e nic D T n 0))"
  have "ipv4_write_header e nic D T n (replicate 2048 0) = Some (?H @ replicate 2028 0)"
    unfolding zeros_2048 by (rule write_header_cons)
  moreover have "ipv4_checksum e (?H @ replicate 2028 0) 20 = Some 0"
    by (rule ipv4_checksum_header_image)
  ultimately show "\<exists>buffer. ipv4_write_header e nic D T n (replicate 2048 0) = Some buffer \<and>
       ipv4_checksum e buffer 20 = Some 0"
    by blast
next
  let ?H = "header_image e nic D T n (rfc1071_checksum e (header_image e nic D T n 0))"
  assume sent: "ipv4_send e nic D T P n = SendPacket nic' frame"
  note ok = ipv4_send_SendPacketD [OF sent]
  have "SendPacket nic' frame
      = SendPacket nic
          (replicate 6 0xFF @ take 6 (mac_address nic) @ [0x08, 0x00] @ ?H @ take (unat n) P)"
    using sent ipv4_send_frame [OF ok, of e D T] by (simp only:)
  then have "frame = replicate 6 0xFF @ take 6 (mac_address nic) @ [0x08, 0x00] @ ?H @ take (unat n) P"
    by (simp only: tx_result.inject)
  then have "drop 14 frame = ?H @ take (unat n) P"
    using ok(3) by simp
  then show "ipv4_checksum e (drop 14 frame) 20 = Some 0"
    by (simp only: ipv4_checksum_header_image)
qed

text \<open>The theorem of claim C8 at the frame of a two-byte payload.\<close>

theorem ipv4_send_header_checksums_to_zero_witness:
  "ipv4_send LittleEndian \<lparr>ip_address = 0x0100000A, mac_address = [2, 0, 0, 0, 0, 1]\<rparr>
     0x0200000A 1 [0xAB, 0xCD] 2
   = SendPacket \<lparr>ip_address = 0x0100000A, mac_address = [2, 0, 0, 0, 0, 1]\<rparr>
       [0xFF, 0xFF, 0xFF, 0xFF, 0xFF, 0xFF, 2, 0, 0, 0, 0, 1, 0x08, 0x00,
        0x45, 0x00, 0x00, 0x16, 0x00, 0x00, 0x00, 0x00, 0x40, 0x01, 0x66, 0xE5,
        0x0A, 0x00, 0x00, 0x01, 0x0A, 0x00, 0x00, 0x02, 0xAB, 0xCD] \<and>
   ipv4_checksum LittleEndian
     [0x45, 0x00, 0x00, 0x16, 0x00, 0x00, 0x00, 0x00, 0x40, 0x01, 0x66, 0xE5,
      0x0A, 0x00, 0x00, 0x01, 0x0A, 0x00, 0x00, 0x02, 0xAB, 0xCD] 20 = Some 0"
proof -
  let ?nic = "\<lparr>ip_address = 0x0100000A, mac_address = [2, 0, 0, 0, 0, 1]\<rparr>"
  let ?frame = "[0xFF, 0xFF, 0xFF, 0xFF, 0xFF, 0xFF, 2, 0, 0, 0, 0, 1, 0x08, 0x00,
        0x45, 0x00, 0x00, 0x16, 0x00, 0x00, 0x00, 0x00, 0x40, 0x01, 0x66, 0xE5,
        0x0A, 0x00, 0x00, 0x01, 0x0A, 0x00, 0x00, 0x02, 0xAB, 0xCD] :: byte list"
  have src: "store32 LittleEndian (ip_address ?nic) = [0x0A, 0x00, 0x00, 0x01]"
    and dst: "store32 LittleEndian 0x0200000A = [0x0A, 0x00, 0x00, 0x02]"
    and ck: "store16 LittleEndian 0xE566 = [0x66, 0xE5]"
    by simp_all
  have img: "header_image LittleEndian ?nic 0x0200000A 1 2 0 =
      [0x45, 0x00, 0x00, 0x16, 0x00, 0x00, 0x00, 0x00, 0x40, 0x01, 0x00, 0x00,
       0x0A, 0x00, 0x00, 0x01, 0x0A, 0x00, 0x00, 0x02]"
    unfolding header_image_def src dst by (simp add: ip_packet_len_def)
  have c: "rfc1071_checksum LittleEndian (header_image LittleEndian ?nic 0x0200000A 1 2 0) = 0xE566"
    unfolding img by (simp add: rfc1071_checksum_def rfc1071_fold_closed word_cat_eq)
  have six: "replicate 6 (0xFF :: byte) = [0xFF, 0xFF, 0xFF, 0xFF, 0xFF, 0xFF]"
    by (simp add: eval_nat_numeral)
  have h: "unat (2 :: 16 word) \<le> 2014" "unat (2 :: 16 word) \<le> length [0xAB, 0xCD :: byte]"
    "6 \<le> length (mac_address ?nic)"
    by simp_all
  have img': "header_image LittleEndian ?nic 0x0200000A 1 2 0xE566 =
      [0x45, 0x00, 0x00, 0x16, 0x00, 0x00, 0x00, 0x00, 0x40, 0x01, 0x66, 0xE5,
       0x0A, 0x00, 0x00, 0x01, 0x0A, 0x00, 0x00, 0x02]"
    unfolding header_image_def src dst ck by (simp add: ip_packet_len_def)
  have sent: "ipv4_send LittleEndian ?nic 0x0200000A 1 [0xAB, 0xCD] 2 = SendPacket ?nic ?frame"
    unfolding ipv4_send_frame [OF h] c img' six by simp
  from ipv4_send_header_checksums_to_zero
    [of LittleEndian ?nic "0x0200000A" 1 2 "[0xAB, 0xCD]" ?nic ?frame] sent
  show ?thesis by simp
qed

section \<open>Claim C9: the writes of the send path\<close>

text \<open>
  Claim C9: when \<open>payload_len \<le> 2014\<close> (and the payload buffer holds that many bytes and
  the link address six), no access of \<open>ipv4_send\<close> leaves the bounds of a buffer, in
  particular no write to one of its two arrays of 2048 bytes: the function reaches
  the call of the driver, with a frame of at most 2048 bytes.
\<close>

theorem ipv4_send_writes_within_bounds:
  assumes "unat n \<le> 2014" and "unat n \<le> length P" and "length (mac_address nic) = 6"
  shows "ipv4_send e nic D T P n \<noteq> TxOutOfBounds \<and>
         (\<exists>frame. ipv4_send e nic D T P n = SendPacket nic frame \<and> length frame \<le> 2048)"
proof -
  let ?frame = "replicate 6 0xFF @ take 6 (mac_address nic) @ [0x08, 0x00]
      @ header_image e nic D T n (rfc1071_checksum e (header_image e nic D T n 0))
      @ take (unat n) P"
  have sent: "ipv4_send e nic D T P n = SendPacket nic ?frame"
    using assms by (intro ipv4_send_frame) simp_all
  moreover have "length ?frame \<le> 2048" using assms by simp
  ultimately show ?thesis by (metis tx_result.distinct(1))
qed

text \<open>The theorem of claim C9 at a payload of two bytes.\<close>

theorem ipv4_send_writes_within_bounds_witness:
  "unat (2 :: 16 word) \<le> 2014 \<and> unat (2 :: 16 word) \<le> length [0xAB, 0xCD :: byte] \<and>
   length (mac_address \<lparr>ip_address = 0x0100000A, mac_address = [2, 0, 0, 0, 0, 1]\<rparr>) = 6 \<and>
   ipv4_send LittleEndian \<lparr>ip_address = 0x0100000A, mac_address = [2, 0, 0, 0, 0, 1]\<rparr>
     0x0200000A 1 [0xAB, 0xCD] 2 \<noteq> TxOutOfBounds"
proof -
  have h: "unat (2 :: 16 word) \<le> 2014" "unat (2 :: 16 word) \<le> length [0xAB, 0xCD :: byte]"
    "length (mac_address \<lparr>ip_address = 0x0100000A, mac_address = [2, 0, 0, 0, 0, 1]\<rparr>) = 6"
    by simp_all
  from ipv4_send_writes_within_bounds [OF h, of LittleEndian "0x0200000A" 1] h
  show ?thesis by blast
qed

section \<open>Claim C10: the total length wraps\<close>




end
